theory Spec2Isabelle
  imports Complex_Main "HOL-Library.Sublist" "HOL-Library.List_Lexorder" "HOL-Library.Char_ord"
begin

section \<open>URL health sentinel: the monitoring loop and the dashboard over one Redis store\<close>

text \<open>
  The repository has two programs that share one Redis database:
  \<^item> \<^verbatim>\<open>src/sentinel/app.py\<close>: \<^verbatim>\<open>connect_redis\<close>, \<^verbatim>\<open>check_url\<close>, \<^verbatim>\<open>check_urls\<close> (the
    monitoring loop);
  \<^item> \<^verbatim>\<open>src/dashboard/app.py\<close>: the Flask handlers \<^verbatim>\<open>delete_station\<close>, \<^verbatim>\<open>add_url\<close>,
    \<^verbatim>\<open>delete_url\<close>.
  Both are embedded below as functions over an explicit world: the database contents,
  the outcome of every upcoming backend call, the answers of the network, the order in
  which Python iterates over a set, and the log of probes and sleeps. Python exceptions
  are values: a computation returns \<open>Inl\<close> of what was raised or \<open>Inr\<close> of its result,
  together with the world it leaves behind.
\<close>

subsection \<open>Python strings and numbers\<close>

text \<open>
  \<^verbatim>\<open>str(n)\<close> for an integer, as the f-strings of \<^verbatim>\<open>check_url\<close> format the response time
  and the status code: decimal digits, most significant first, with a leading minus sign
  for a negative number.
\<close>

definition digit_char :: "nat \<Rightarrow> char" where
  "digit_char d = ''0123456789'' ! d"

function str_nat :: "nat \<Rightarrow> string" where
  "str_nat n = (if n < 10 then [digit_char n] else str_nat (n div 10) @ [digit_char (n mod 10)])"
  by pat_completeness auto
termination
  by (relation "measure (\<lambda>n. n)") auto

declare str_nat.simps [simp del]

definition str_int :: "int \<Rightarrow> string" where
  "str_int i = (if i < 0 then CHR ''-'' # str_nat (nat (- i)) else str_nat (nat i))"

text \<open>
  \<^verbatim>\<open>int(x)\<close> of a float truncates towards zero. Clock readings are modelled as real
  numbers; the rounding of binary floating point is not part of the model.
\<close>

definition py_int :: "real \<Rightarrow> int" where
  "py_int x = (if 0 \<le> x then \<lfloor>x\<rfloor> else \<lceil>x\<rceil>)"







subsection \<open>Exceptions\<close>

text \<open>
  The exceptions that reach the handlers of the two programs, one constructor for each
  class that the \<^verbatim>\<open>except\<close> clauses can tell apart. The class hierarchy is that of the
  libraries: in \<^verbatim>\<open>requests.exceptions\<close>, \<^verbatim>\<open>ConnectTimeout\<close> derives from both
  \<^verbatim>\<open>ConnectionError\<close> and \<^verbatim>\<open>Timeout\<close>, \<^verbatim>\<open>ReadTimeout\<close> from \<^verbatim>\<open>Timeout\<close>, and all of
  them from \<^verbatim>\<open>RequestException\<close>; in \<^verbatim>\<open>redis.exceptions\<close>, \<^verbatim>\<open>ConnectionError\<close>,
  \<^verbatim>\<open>TimeoutError\<close> and \<^verbatim>\<open>ResponseError\<close> derive from \<^verbatim>\<open>RedisError\<close>. Every one of
  them is an \<^verbatim>\<open>Exception\<close>; \<^verbatim>\<open>KeyboardInterrupt\<close> is a \<^verbatim>\<open>BaseException\<close> only.
\<close>

datatype exn =
    KeyboardInterrupt
  | ReadTimeout
  | ConnectTimeout
  | RequestsConnectionError
  | TooManyRedirects
  | OtherRequestException
  | RedisConnectionError
  | RedisTimeoutError
  | ResponseError
  | ValueError
  | AttributeError
  | OtherException

definition is_Exception :: "exn \<Rightarrow> bool" where
  "is_Exception e = (e \<noteq> KeyboardInterrupt)"

definition is_KeyboardInterrupt :: "exn \<Rightarrow> bool" where
  "is_KeyboardInterrupt e = (e = KeyboardInterrupt)"

definition is_requests_Timeout :: "exn \<Rightarrow> bool" where
  "is_requests_Timeout e = (e = ReadTimeout \<or> e = ConnectTimeout)"

definition is_requests_ConnectionError :: "exn \<Rightarrow> bool" where
  "is_requests_ConnectionError e = (e = ConnectTimeout \<or> e = RequestsConnectionError)"

definition is_requests_TooManyRedirects :: "exn \<Rightarrow> bool" where
  "is_requests_TooManyRedirects e = (e = TooManyRedirects)"

definition is_requests_RequestException :: "exn \<Rightarrow> bool" where
  "is_requests_RequestException e =
     (e = ReadTimeout \<or> e = ConnectTimeout \<or> e = RequestsConnectionError
      \<or> e = TooManyRedirects \<or> e = OtherRequestException)"

definition is_redis_ConnectionError :: "exn \<Rightarrow> bool" where
  "is_redis_ConnectionError e = (e = RedisConnectionError)"

text \<open>
  What ends a computation early: a raised exception, or \<^verbatim>\<open>sys.exit(n)\<close>. The latter is
  \<^verbatim>\<open>SystemExit\<close>, which no \<^verbatim>\<open>except\<close> clause of the sentinel catches (it is not an
  \<^verbatim>\<open>Exception\<close>), so it is kept apart from the exceptions handlers inspect.
\<close>

datatype abort = Raised exn | SystemExit int

subsection \<open>The Redis database\<close>

text \<open>
  A flat key space of typed values. The programs use a set under \<^verbatim>\<open>stations\<close>, a set
  under \<^verbatim>\<open>urls:<station>\<close> and a string under \<^verbatim>\<open>status:<url>\<close>. A command on a key of
  the wrong type is refused by the server (\<^verbatim>\<open>WRONGTYPE\<close>, a \<^verbatim>\<open>ResponseError\<close>). A set
  that loses its last member is removed, so an empty set and an absent key are the same.
\<close>

datatype rval = RString string | RSet "string set"

type_synonym db = "string \<rightharpoonup> rval"

type_synonym 'a command = "db \<Rightarrow> exn + ('a \<times> db)"

definition urls_key :: "string \<Rightarrow> string" where
  "urls_key station = ''urls:'' @ station"

definition status_key :: "string \<Rightarrow> string" where
  "status_key url = ''status:'' @ url"

definition cmd_ping :: "bool command" where
  "cmd_ping d = Inr (True, d)"

definition cmd_exists :: "string \<Rightarrow> int command" where
  "cmd_exists k d = Inr (if d k = None then 0 else 1, d)"

definition cmd_sadd :: "string \<Rightarrow> string \<Rightarrow> int command" where
  "cmd_sadd k v d =
     (case d k of
        None \<Rightarrow> Inr (1, d(k \<mapsto> RSet {v}))
      | Some (RSet S) \<Rightarrow> Inr (if v \<in> S then 0 else 1, d(k \<mapsto> RSet (insert v S)))
      | Some (RString _) \<Rightarrow> Inl ResponseError)"

definition cmd_smembers :: "string \<Rightarrow> (string set) command" where
  "cmd_smembers k d =
     (case d k of
        None \<Rightarrow> Inr ({}, d)
      | Some (RSet S) \<Rightarrow> Inr (S, d)
      | Some (RString _) \<Rightarrow> Inl ResponseError)"

definition cmd_scard :: "string \<Rightarrow> int command" where
  "cmd_scard k d =
     (case d k of
        None \<Rightarrow> Inr (0, d)
      | Some (RSet S) \<Rightarrow> Inr (int (card S), d)
      | Some (RString _) \<Rightarrow> Inl ResponseError)"

definition cmd_srem :: "string \<Rightarrow> string \<Rightarrow> int command" where
  "cmd_srem k v d =
     (case d k of
        None \<Rightarrow> Inr (0, d)
      | Some (RSet S) \<Rightarrow>
          Inr (if v \<in> S then 1 else 0,
               if S - {v} = {} then d(k := None) else d(k \<mapsto> RSet (S - {v})))
      | Some (RString _) \<Rightarrow> Inl ResponseError)"

definition cmd_set :: "string \<Rightarrow> string \<Rightarrow> bool command" where
  "cmd_set k v d = Inr (True, d(k \<mapsto> RString v))"

definition cmd_delete :: "string \<Rightarrow> int command" where
  "cmd_delete k d = Inr (if d k = None then 0 else 1, d(k := None))"

text \<open>
  The databases the two programs can build: every stored set is finite and non-empty,
  and the keys read as sets do not hold strings.
\<close>

definition wf_db :: "db \<Rightarrow> bool" where
  "wf_db d =
     ((\<forall>k S. d k = Some (RSet S) \<longrightarrow> finite S \<and> S \<noteq> {})
      \<and> (\<forall>v. d ''stations'' \<noteq> Some (RString v))
      \<and> (\<forall>s v. d (urls_key s) \<noteq> Some (RString v)))"

text \<open>The station set and a station's URL set, as the database holds them.\<close>

definition members :: "db \<Rightarrow> string \<Rightarrow> string set" where
  "members d k = (case d k of Some (RSet S) \<Rightarrow> S | _ \<Rightarrow> {})"

subsection \<open>The world\<close>

text \<open>
  One answer of \<^verbatim>\<open>requests.get\<close>, with the two readings of \<^verbatim>\<open>time.time()\<close> that
  \<^verbatim>\<open>check_url\<close> takes around it (the second is taken only when a response arrives).
\<close>

datatype http_result = Response int | Raises exn

record probe =
  started :: real
  outcome :: http_result
  finished :: real

type_synonym headers = "string \<rightharpoonup> string"

text \<open>
  \<^item> \<open>db\<close>: the contents of the database;
  \<^item> \<open>faults\<close>: the fate of the upcoming backend calls, in order: \<open>Some e\<close> makes the
    call raise \<open>e\<close> before it reaches the server, \<open>None\<close> (or an exhausted list) lets it
    through;
  \<^item> \<open>http\<close>: what the \<open>n\<close>-th call of \<^verbatim>\<open>requests.get\<close> answers for a URL, header set and
    timeout;
  \<^item> \<open>order\<close>: the order in which a \<^verbatim>\<open>for\<close> loop visits a Python set;
  \<^item> \<open>probed\<close>: the URLs passed to \<^verbatim>\<open>requests.get\<close> so far;
  \<^item> \<open>slept\<close>: the arguments of the \<^verbatim>\<open>time.sleep\<close> calls so far, in seconds.
  Logging does not touch any of these and is left out.
\<close>

record world =
  db :: db
  faults :: "exn option list"
  http :: "nat \<Rightarrow> string \<Rightarrow> headers \<Rightarrow> int \<Rightarrow> probe"
  order :: "string set \<Rightarrow> string list"
  probed :: "string list"
  slept :: "real list"

text \<open>The two settings the sentinel reads from its environment (lines 21 and 22).\<close>

record config =
  check_interval :: int
  request_timeout :: int

type_synonym 'a io = "world \<Rightarrow> (abort + 'a) \<times> world"

definition io_return :: "'a \<Rightarrow> 'a io" where
  "io_return a w = (Inr a, w)"

definition io_raise :: "exn \<Rightarrow> 'a io" where
  "io_raise e w = (Inl (Raised e), w)"

definition sys_exit :: "int \<Rightarrow> 'a io" where
  "sys_exit n w = (Inl (SystemExit n), w)"

definition io_bind :: "'a io \<Rightarrow> ('a \<Rightarrow> 'b io) \<Rightarrow> 'b io" where
  "io_bind m f w = (case m w of (Inl a, w') \<Rightarrow> (Inl a, w') | (Inr x, w') \<Rightarrow> f x w')"

text \<open>
  \<^verbatim>\<open>try: m except ...: h\<close>. The handler gets the exception and decides by its class;
  a handler that matches no clause re-raises. \<^verbatim>\<open>SystemExit\<close> passes through.
\<close>

definition io_catch :: "'a io \<Rightarrow> (exn \<Rightarrow> 'a io) \<Rightarrow> 'a io" where
  "io_catch m h w = (case m w of (Inl (Raised e), w') \<Rightarrow> h e w' | r \<Rightarrow> r)"

definition redis_call :: "'a command \<Rightarrow> 'a io" where
  "redis_call c w =
     (case faults w of
        Some e # rest \<Rightarrow> (Inl (Raised e), w\<lparr>faults := rest\<rparr>)
      | _ \<Rightarrow>
        (case c (db w) of
           Inl e \<Rightarrow> (Inl (Raised e), w\<lparr>faults := tl (faults w)\<rparr>)
         | Inr (a, d) \<Rightarrow> (Inr a, w\<lparr>faults := tl (faults w), db := d\<rparr>)))"

definition time_sleep :: "real \<Rightarrow> unit io" where
  "time_sleep secs w =
     (if secs < 0 then (Inl (Raised ValueError), w)
      else (Inr (), w\<lparr>slept := slept w @ [secs]\<rparr>))"

definition requests_get :: "string \<Rightarrow> headers \<Rightarrow> int \<Rightarrow> probe io" where
  "requests_get url hdrs timeout w =
     (Inr (http w (length (probed w)) url hdrs timeout), w\<lparr>probed := probed w @ [url]\<rparr>)"

text \<open>What the next call of \<^verbatim>\<open>requests.get\<close> will answer.\<close>

definition next_probe :: "config \<Rightarrow> string \<Rightarrow> headers \<Rightarrow> world \<Rightarrow> probe" where
  "next_probe cfg url hdrs w = http w (length (probed w)) url hdrs (request_timeout cfg)"

text \<open>A \<^verbatim>\<open>for\<close> loop over a list whose body may raise.\<close>

fun io_foreach :: "'a list \<Rightarrow> ('a \<Rightarrow> unit io) \<Rightarrow> unit io" where
  "io_foreach [] body w = (Inr (), w)"
| "io_foreach (x # xs) body w =
     (case body x w of (Inl a, w') \<Rightarrow> (Inl a, w') | (Inr _, w') \<Rightarrow> io_foreach xs body w')"

subsection \<open>The sentinel: \<^verbatim>\<open>src/sentinel/app.py\<close>\<close>

definition max_retries :: nat where
  "max_retries = 5"

definition retry_delay :: real where
  "retry_delay = 2"

text \<open>
  The \<^verbatim>\<open>try\<close> block of one attempt of \<^verbatim>\<open>connect_redis\<close> (lines 31 to 48): the client
  object is built without touching the network, then \<^verbatim>\<open>ping\<close>, \<^verbatim>\<open>exists\<close> and, when the
  key is absent, \<^verbatim>\<open>sadd\<close>.
\<close>

definition connect_attempt :: "unit io" where
  "connect_attempt =
     io_bind (redis_call cmd_ping) (\<lambda>_.
     io_bind (redis_call (cmd_exists ''stations'')) (\<lambda>n.
       if n = 0 then io_bind (redis_call (cmd_sadd ''stations'' ''General'')) (\<lambda>_. io_return ())
       else io_return ()))"

text \<open>
  \<^verbatim>\<open>for attempt in range(max_retries)\<close>. The result is \<open>True\<close> when a client is
  returned; \<open>False\<close> stands for falling off the loop, where Python returns \<^verbatim>\<open>None\<close>.
\<close>

fun connect_attempts :: "nat list \<Rightarrow> bool io" where
  "connect_attempts [] w = (Inr False, w)"
| "connect_attempts (attempt # rest) w =
     (case connect_attempt w of
        (Inr _, w') \<Rightarrow> (Inr True, w')
      | (Inl (SystemExit n), w') \<Rightarrow> (Inl (SystemExit n), w')
      | (Inl (Raised e), w') \<Rightarrow>
          if is_Exception e then
            (if attempt < max_retries - 1 then
               (case time_sleep retry_delay w' of
                  (Inl a, w'') \<Rightarrow> (Inl a, w'')
                | (Inr _, w'') \<Rightarrow> connect_attempts rest w'')
             else sys_exit 1 w')
          else (Inl (Raised e), w'))"

definition connect_redis :: "bool io" where
  "connect_redis = connect_attempts [0 ..< max_retries]"

text \<open>\<^verbatim>\<open>check_url\<close> (lines 57 to 78).\<close>

definition check_url :: "config \<Rightarrow> string \<Rightarrow> headers \<Rightarrow> string io" where
  "check_url cfg url hdrs =
     io_catch
       (io_bind (requests_get url hdrs (request_timeout cfg)) (\<lambda>p.
          case outcome p of
            Raises e \<Rightarrow> io_raise e
          | Response status_code \<Rightarrow>
              (let response_time = py_int ((finished p - started p) * 1000) in
               if status_code = 200 then io_return (''UP ('' @ str_int response_time @ ''ms)'')
               else io_return (''DOWN ('' @ str_int status_code @ '')''))))
       (\<lambda>e. if is_requests_Timeout e then io_return ''DOWN (Timeout)''
            else if is_requests_ConnectionError e then io_return ''DOWN (Connection Error)''
            else if is_requests_TooManyRedirects e then io_return ''DOWN (Too Many Redirects)''
            else if is_requests_RequestException e then io_return ''DOWN (Error)''
            else if is_Exception e then io_return ''DOWN (Unknown Error)''
            else io_raise e)"

text \<open>The header set that \<^verbatim>\<open>check_urls\<close> sends with every probe (lines 82 to 88).\<close>

definition default_headers :: headers where
  "default_headers = map_of
     [(''User-Agent'', ''Mozilla/5.0 (Windows NT 10.0; Win64; x64) AppleWebKit/537.36 (KHTML, like Gecko) Chrome/120.0.0.0 Safari/537.36''),
      (''Accept'', ''text/html,application/xhtml+xml,application/xml;q=0.9,*/*;q=0.8''),
      (''Accept-Language'', ''en-US,en;q=0.5''),
      (''Accept-Encoding'', ''gzip, deflate''),
      (''Connection'', ''keep-alive'')]"

text \<open>
  Lines 101 to 104: \<^verbatim>\<open>all_urls = set()\<close>, then for each station
  \<^verbatim>\<open>all_urls.update(r.smembers(f'urls:{station}'))\<close>.
\<close>

fun collect_urls :: "string list \<Rightarrow> string set \<Rightarrow> (string set) io" where
  "collect_urls [] all_urls w = (Inr all_urls, w)"
| "collect_urls (station # rest) all_urls w =
     (case redis_call (cmd_smembers (urls_key station)) w of
        (Inl a, w') \<Rightarrow> (Inl a, w')
      | (Inr station_urls, w') \<Rightarrow> collect_urls rest (all_urls \<union> station_urls) w')"

text \<open>Lines 98 to 104: the working set of one sweep.\<close>

definition enumerate_urls :: "(string set) io" where
  "enumerate_urls =
     io_bind (redis_call (cmd_smembers ''stations'')) (\<lambda>stations.
       (\<lambda>w. collect_urls (order w stations) {} w))"

text \<open>Lines 113 to 128: the body of the loop over the working set, with its handler.\<close>

definition process_url :: "config \<Rightarrow> string \<Rightarrow> unit io" where
  "process_url cfg url =
     io_catch
       (io_bind (check_url cfg url default_headers) (\<lambda>status.
        io_bind (redis_call (cmd_set (status_key url) status)) (\<lambda>_.
        time_sleep (1 / 10))))
       (\<lambda>e. if is_Exception e then
              io_bind (redis_call (cmd_set (status_key url) ''DOWN (Processing Error)''))
                (\<lambda>_. io_return ())
            else io_raise e)"

text \<open>
  Lines 94 to 133: the \<^verbatim>\<open>try\<close> block of one turn of \<^verbatim>\<open>while True\<close>. With \<open>r\<close> false
  the client is \<^verbatim>\<open>None\<close> and the first method call raises \<^verbatim>\<open>AttributeError\<close>. The
  counter of the checks, the clock readings taken for the log and the log lines
  themselves change nothing that is modelled and are left out.
\<close>

definition sweep :: "config \<Rightarrow> bool \<Rightarrow> unit io" where
  "sweep cfg r =
     (if \<not> r then io_raise AttributeError
      else
        io_bind enumerate_urls (\<lambda>all_urls.
        io_bind (\<lambda>w. io_foreach (order w all_urls) (process_url cfg) w) (\<lambda>_.
        time_sleep (real_of_int (check_interval cfg)))))"

text \<open>
  \<^verbatim>\<open>check_urls\<close> (lines 80 to 144). The loop has no exit of its own, so it is run for a
  number of turns: \<open>None\<close> says that the turns are used up and the loop is still
  running, \<open>Some a\<close> that it was left by \<open>a\<close>.
\<close>

fun check_urls :: "config \<Rightarrow> nat \<Rightarrow> bool \<Rightarrow> world \<Rightarrow> abort option \<times> world" where
  "check_urls cfg 0 r w = (None, w)"
| "check_urls cfg (Suc turns) r w =
     (case sweep cfg r w of
        (Inr _, w') \<Rightarrow> check_urls cfg turns r w'
      | (Inl (SystemExit c), w') \<Rightarrow> (Some (SystemExit c), w')
      | (Inl (Raised e), w') \<Rightarrow>
          if is_redis_ConnectionError e then
            (case connect_redis w' of
               (Inl a, w'') \<Rightarrow> (Some a, w'')
             | (Inr r', w'') \<Rightarrow> check_urls cfg turns r' w'')
          else if is_KeyboardInterrupt e then (Some (SystemExit 0), w')
          else if is_Exception e then
            (case time_sleep 5 w' of
               (Inl a, w'') \<Rightarrow> (Some a, w'')
             | (Inr _, w'') \<Rightarrow> check_urls cfg turns r w'')
          else (Some (Raised e), w'))"

text \<open>Lines 154 and 155: \<^verbatim>\<open>r = connect_redis()\<close>, then \<^verbatim>\<open>check_urls(r)\<close>.\<close>

definition main :: "config \<Rightarrow> nat \<Rightarrow> world \<Rightarrow> abort option \<times> world" where
  "main cfg turns w =
     (case connect_redis w of
        (Inl a, w') \<Rightarrow> (Some a, w')
      | (Inr r, w') \<Rightarrow> check_urls cfg turns r w')"

subsection \<open>The dashboard: \<^verbatim>\<open>src/dashboard/app.py\<close>\<close>

text \<open>
  The module holds one client \<^verbatim>\<open>r\<close>, which is \<^verbatim>\<open>None\<close> when the connection at import
  failed (\<open>r\<close> false below). A handler answers with a redirect in every case; what it
  tells the user is the message it flashes, with its category.
\<close>

type_synonym flash = "string \<times> string"

text \<open>\<^verbatim>\<open>try: m except: h\<close> with a bare \<^verbatim>\<open>except\<close>, which catches everything.\<close>

definition io_catch_all :: "'a io \<Rightarrow> 'a io \<Rightarrow> 'a io" where
  "io_catch_all m h w = (case m w of (Inl _, w') \<Rightarrow> h w' | r \<Rightarrow> r)"

definition check_redis_connection :: "bool \<Rightarrow> bool io" where
  "check_redis_connection r =
     (if \<not> r then io_return False
      else io_catch_all (io_bind (redis_call cmd_ping) (\<lambda>_. io_return True)) (io_return False))"

text \<open>\<^verbatim>\<open>delete_station\<close> (lines 127 to 150); \<open>name\<close> is \<^verbatim>\<open>request.form.get('name')\<close>.\<close>

definition delete_station :: "bool \<Rightarrow> string option \<Rightarrow> (flash option) io" where
  "delete_station r name =
     io_bind (check_redis_connection r) (\<lambda>connected.
       if \<not> connected then io_return (Some (''Cannot connect to database'', ''error''))
       else
         io_catch
           (case name of
              None \<Rightarrow> io_return None
            | Some n \<Rightarrow>
                if n \<noteq> [] \<and> n \<noteq> ''General'' then
                  io_bind (redis_call (cmd_scard (urls_key n))) (\<lambda>urls_count.
                  io_bind (redis_call (cmd_srem ''stations'' n)) (\<lambda>_.
                  io_bind (redis_call (cmd_delete (urls_key n))) (\<lambda>_.
                  io_return (Some (''Station \"'' @ n @ ''\" deleted ('' @ str_int urls_count
                                     @ '' URLs removed)'', ''success'')))))
                else if n = ''General'' then
                  io_return (Some (''Cannot delete the General station'', ''error''))
                else io_return None)
           (\<lambda>e. if is_Exception e then io_return (Some (''Failed to delete station'', ''error''))
                else io_raise e))"



text \<open>
  Lines 198 to 202 of \<^verbatim>\<open>delete_url\<close>: the scan of the stations, which stops at the first
  station whose URL set holds the URL.
\<close>

fun url_exists_in :: "string \<Rightarrow> string list \<Rightarrow> bool io" where
  "url_exists_in url [] w = (Inr False, w)"
| "url_exists_in url (s # rest) w =
     (case redis_call (cmd_smembers (urls_key s)) w of
        (Inl a, w') \<Rightarrow> (Inl a, w')
      | (Inr station_urls, w') \<Rightarrow>
          if url \<in> station_urls then (Inr True, w') else url_exists_in url rest w')"

text \<open>\<^verbatim>\<open>delete_url\<close> (lines 184 to 213).\<close>

definition delete_url :: "bool \<Rightarrow> string option \<Rightarrow> string option \<Rightarrow> (flash option) io" where
  "delete_url r url_field station_field =
     io_bind (check_redis_connection r) (\<lambda>connected.
       if \<not> connected then io_return (Some (''Cannot connect to database'', ''error''))
       else
         io_catch
           (case (url_field, station_field) of
              (Some url, Some station) \<Rightarrow>
                if url \<noteq> [] \<and> station \<noteq> [] then
                  io_bind (redis_call (cmd_srem (urls_key station) url)) (\<lambda>_.
                  io_bind (redis_call (cmd_smembers ''stations'')) (\<lambda>stations.
                  io_bind (\<lambda>w. url_exists_in url (order w stations) w) (\<lambda>url_exists_elsewhere.
                  io_bind (if \<not> url_exists_elsewhere
                           then io_bind (redis_call (cmd_delete (status_key url))) (\<lambda>_. io_return ())
                           else io_return ()) (\<lambda>_.
                  io_return (Some (''URL removed'', ''success''))))))
                else io_return None
            | _ \<Rightarrow> io_return None)
           (\<lambda>e. if is_Exception e then io_return (Some (''Failed to delete URL'', ''error''))
                else io_raise e))"

subsection \<open>Concrete worlds\<close>

text \<open>
  Worlds on which the functions above are run: a database, a fault script and a network
  that answers by the number of the probe and the URL. Sets are visited in sorted order.
\<close>

definition world_of :: "db \<Rightarrow> exn option list \<Rightarrow> (nat \<Rightarrow> string \<Rightarrow> probe) \<Rightarrow> world" where
  "world_of d fs net =
     \<lparr>db = d, faults = fs, http = (\<lambda>n url hdrs timeout. net n url),
      order = sorted_list_of_set, probed = [], slept = []\<rparr>"

definition default_config :: config where
  "default_config = \<lparr>check_interval = 10, request_timeout = 5\<rparr>"

definition answer :: "real \<Rightarrow> http_result \<Rightarrow> real \<Rightarrow> probe" where
  "answer t0 res t1 = \<lparr>started = t0, outcome = res, finished = t1\<rparr>"

subsection \<open>Relations between the world before and after a computation\<close>

text \<open>
  \<open>order_ok\<close>: a loop over a finite set visits every member once. \<open>preserves R m\<close>:
  whatever \<open>m\<close> returns or raises, the world it leaves is related by \<open>R\<close> to the one it
  started in.
\<close>

definition order_ok :: "world \<Rightarrow> bool" where
  "order_ok w = (\<forall>S. finite S \<longrightarrow> set (order w S) = S \<and> distinct (order w S))"

definition preserves :: "(world \<Rightarrow> world \<Rightarrow> bool) \<Rightarrow> 'a io \<Rightarrow> bool" where
  "preserves R m = (\<forall>w. R w (snd (m w)))"

definition keeps_keys :: "world \<Rightarrow> world \<Rightarrow> bool" where
  "keeps_keys w w' = (\<forall>k. db w k \<noteq> None \<longrightarrow> db w' k \<noteq> None)"

definition same_outside :: "string set \<Rightarrow> world \<Rightarrow> world \<Rightarrow> bool" where
  "same_outside K w w' = (\<forall>k. k \<notin> K \<longrightarrow> db w' k = db w k)"

text \<open>The database after \<^verbatim>\<open>SREM k v\<close>, when the key holds a set or is absent.\<close>

definition db_srem :: "string \<Rightarrow> string \<Rightarrow> db \<Rightarrow> db" where
  "db_srem k v d = (if members d k - {v} = {} then d(k := None) else d(k \<mapsto> RSet (members d k - {v})))"

text \<open>
  The scenario of the specification: two stations that share one URL, every status still
  \<^verbatim>\<open>PENDING\<close>; and a network on which every request is answered at once with 200.
\<close>

definition scenario_db :: db where
  "scenario_db =
     [''stations'' \<mapsto> RSet {''General'', ''Work''},
      ''urls:General'' \<mapsto> RSet {''https://example.com''},
      ''urls:Work'' \<mapsto> RSet {''https://example.com'', ''https://nonexistent.invalid''},
      ''status:https://example.com'' \<mapsto> RString ''PENDING'',
      ''status:https://nonexistent.invalid'' \<mapsto> RString ''PENDING'']"

definition quiet_net :: "nat \<Rightarrow> string \<Rightarrow> probe" where
  "quiet_net n url = answer 0 (Response 200) 0"

subsection \<open>Notions used to state the properties of the sentinel\<close>

text \<open>
  \<open>bootstrap_rel\<close>: the database is the same, or it had no station set and now has the
  station set \<^verbatim>\<open>{General}\<close>. \<open>attempt_fails w\<close>: the attempt to connect that starts in \<open>w\<close>
  raises an \<^verbatim>\<open>Exception\<close>. \<open>next_attempt w\<close>: the world in which the following attempt
  starts, after the failed one and the delay. \<open>no_exit m\<close>: \<open>m\<close> never calls
  \<^verbatim>\<open>sys.exit\<close>.
\<close>

definition bootstrap_rel :: "world \<Rightarrow> world \<Rightarrow> bool" where
  "bootstrap_rel w w' =
     (db w' = db w
      \<or> (db w ''stations'' = None \<and> db w' = (db w)(''stations'' \<mapsto> RSet {''General''})))"




text \<open>
  The network of the scenario: \<^verbatim>\<open>https://example.com\<close> answers 200 after 42 ms, every
  other host cannot be reached.
\<close>

definition scenario_net :: "nat \<Rightarrow> string \<Rightarrow> probe" where
  "scenario_net n url =
     (if url = ''https://example.com'' then answer 0 (Response 200) (42 / 1000)
      else answer 0 (Raises RequestsConnectionError) 0)"

section \<open>Properties\<close>

subsection \<open>Evaluation lemmas\<close>

lemma str_nat_small: "n < 10 \<Longrightarrow> str_nat n = [digit_char n]"
  by (simp add: str_nat.simps)
lemma str_nat_big: "\<not> n < 10 \<Longrightarrow> str_nat n = str_nat (n div 10) @ [digit_char (n mod 10)]"
  by (subst str_nat.simps) simp

lemmas io_defs = io_bind_def io_catch_def io_return_def io_raise_def



lemma next_probe_world_of [simp]:
  "next_probe cfg url hdrs (world_of d fs net) = net 0 url"
  by (simp add: next_probe_def world_of_def)

subsection \<open>The probe: \<^verbatim>\<open>check_url\<close>\<close>













subsection \<open>Keys\<close>

lemma key_distinct [simp]:
  "status_key u \<noteq> ''stations''" "''stations'' \<noteq> status_key u"
  "urls_key s \<noteq> ''stations''" "''stations'' \<noteq> urls_key s"
  "status_key u \<noteq> urls_key s" "urls_key s \<noteq> status_key u"
  by (simp_all add: status_key_def urls_key_def)

lemma key_inject [simp]:
  "urls_key s = urls_key t \<longleftrightarrow> s = t" "status_key u = status_key v \<longleftrightarrow> u = v"
  by (simp_all add: status_key_def urls_key_def)

subsection \<open>Backend calls\<close>

lemma redis_call_no_fault:
  "faults w = [] \<Longrightarrow>
   redis_call c w =
     (case c (db w) of Inl e \<Rightarrow> (Inl (Raised e), w) | Inr (a, d) \<Rightarrow> (Inr a, w\<lparr>db := d\<rparr>))"
  by (cases w) (simp add: redis_call_def split: sum.splits)

lemma redis_call_unfaulted:
  "(\<And>e rest. faults w \<noteq> Some e # rest) \<Longrightarrow>
   redis_call c w =
     (case c (db w) of
        Inl e \<Rightarrow> (Inl (Raised e), w\<lparr>faults := tl (faults w)\<rparr>)
      | Inr (a, d) \<Rightarrow> (Inr a, w\<lparr>faults := tl (faults w), db := d\<rparr>))"
  by (auto simp: redis_call_def split: list.splits option.splits)

lemma redis_call_cases:
  obtains (fault) e rest where "faults w = Some e # rest"
      and "redis_call c w = (Inl (Raised e), w\<lparr>faults := rest\<rparr>)"
  | (refused) e where "c (db w) = Inl e"
      and "redis_call c w = (Inl (Raised e), w\<lparr>faults := tl (faults w)\<rparr>)"
  | (success) a d where "c (db w) = Inr (a, d)"
      and "redis_call c w = (Inr a, w\<lparr>faults := tl (faults w), db := d\<rparr>)"
proof (cases "\<exists>e rest. faults w = Some e # rest")
  case True
  then obtain e rest where "faults w = Some e # rest" by blast
  then show ?thesis using fault by (simp add: redis_call_def)
next
  case False
  then have nf: "\<And>e rest. faults w \<noteq> Some e # rest" by blast
  show ?thesis
  proof (cases "c (db w)")
    case (Inl e)
    then show ?thesis using refused by (simp add: redis_call_unfaulted [OF nf])
  next
    case (Inr p)
    then show ?thesis using success [of "fst p" "snd p"]
      by (simp add: redis_call_unfaulted [OF nf] split: prod.splits)
  qed
qed

lemma preservesD: "preserves R m \<Longrightarrow> m w = (res, w') \<Longrightarrow> R w w'"
  by (auto simp: preserves_def dest: spec [of _ w])

lemma preserves_redis_call:
  assumes refl: "\<And>w. R w w"
    and fl: "\<And>w fs. R w (w\<lparr>faults := fs\<rparr>)"
    and cmd: "\<And>w fs a d. c (db w) = Inr (a, d) \<Longrightarrow> R w (w\<lparr>faults := fs, db := d\<rparr>)"
  shows "preserves R (redis_call c)"
  unfolding preserves_def
proof
  fix w
  show "R w (snd (redis_call c w))"
    by (rule redis_call_cases [of w c]) (simp_all add: fl cmd)
qed

lemma preserves_return: "(\<And>w. R w w) \<Longrightarrow> preserves R (io_return a)"
  by (simp add: preserves_def io_return_def)

lemma preserves_raise: "(\<And>w. R w w) \<Longrightarrow> preserves R (io_raise e)"
  by (simp add: preserves_def io_raise_def)

lemma preserves_bind:
  assumes "transp R" "preserves R m" "\<And>x. preserves R (f x)"
  shows "preserves R (io_bind m f)"
  unfolding preserves_def
proof
  fix w
  show "R w (snd (io_bind m f w))"
  proof (cases "m w")
    case (Pair res w')
    have 1: "R w w'" using assms(2) Pair by (rule preservesD)
    show ?thesis
    proof (cases res)
      case (Inl a)
      then show ?thesis using Pair 1 by (simp add: io_bind_def)
    next
      case (Inr x)
      have "R w' (snd (f x w'))" using assms(3) by (simp add: preserves_def)
      with 1 have "R w (snd (f x w'))" using assms(1) by (blast dest: transpD)
      then show ?thesis using Pair Inr by (simp add: io_bind_def)
    qed
  qed
qed

lemma preserves_catch:
  assumes "transp R" "preserves R m" "\<And>e. preserves R (h e)"
  shows "preserves R (io_catch m h)"
  unfolding preserves_def
proof
  fix w
  show "R w (snd (io_catch m h w))"
  proof (cases "m w")
    case (Pair res w')
    have 1: "R w w'" using assms(2) Pair by (rule preservesD)
    show ?thesis
    proof (cases "\<exists>e. res = Inl (Raised e)")
      case True
      then obtain e where e: "res = Inl (Raised e)" by blast
      have "R w' (snd (h e w'))" using assms(3) by (simp add: preserves_def)
      with 1 have "R w (snd (h e w'))" using assms(1) by (blast dest: transpD)
      then show ?thesis using Pair e by (simp add: io_catch_def)
    next
      case False
      then have "io_catch m h w = (res, w')" using Pair
        by (auto simp: io_catch_def split: sum.splits abort.splits)
      then show ?thesis using 1 by simp
    qed
  qed
qed

lemma preserves_catch_all:
  assumes "transp R" "preserves R m" "preserves R h"
  shows "preserves R (io_catch_all m h)"
  unfolding preserves_def
proof
  fix w
  show "R w (snd (io_catch_all m h w))"
  proof (cases "m w")
    case (Pair res w')
    have 1: "R w w'" using assms(2) Pair by (rule preservesD)
    have "R w' (snd (h w'))" using assms(3) by (simp add: preserves_def)
    with 1 have "R w (snd (h w'))" using assms(1) by (blast dest: transpD)
    then show ?thesis using Pair 1 by (cases res) (simp_all add: io_catch_all_def)
  qed
qed

lemma preserves_foreach:
  assumes "transp R" "\<And>w. R w w" "\<And>x. preserves R (body x)"
  shows "preserves R (io_foreach xs body)"
  unfolding preserves_def
proof
  fix w
  show "R w (snd (io_foreach xs body w))"
  proof (induction xs arbitrary: w)
    case Nil
    then show ?case by (simp add: assms(2))
  next
    case (Cons x xs)
    obtain res w' where b: "body x w = (res, w')" by (cases "body x w")
    have 1: "R w w'" using assms(3) b by (rule preservesD)
    show ?case
    proof (cases res)
      case (Inl a)
      then show ?thesis using b 1 by simp
    next
      case (Inr u)
      have "R w' (snd (io_foreach xs body w'))" by (rule Cons.IH)
      with 1 have "R w (snd (io_foreach xs body w'))" using assms(1) by (blast dest: transpD)
      then show ?thesis using b Inr by simp
    qed
  qed
qed

lemma preserves_if:
  "preserves R m \<Longrightarrow> preserves R n \<Longrightarrow> preserves R (if b then m else n)"
  by simp

lemma preserves_sleep:
  assumes "\<And>w. R w w" "\<And>w xs. R w (w\<lparr>slept := xs\<rparr>)"
  shows "preserves R (time_sleep t)"
  by (simp add: preserves_def time_sleep_def assms)

lemma preserves_requests_get:
  assumes "\<And>w xs. R w (w\<lparr>probed := xs\<rparr>)"
  shows "preserves R (requests_get url hdrs t)"
  by (simp add: preserves_def requests_get_def assms)

subsection \<open>What the commands change\<close>

lemma same_outside_refl: "same_outside K w w"
  by (simp add: same_outside_def)

lemma same_outside_transp: "transp (same_outside K)"
  by (auto simp: same_outside_def transp_def)

lemma cmd_reads:
  "cmd_ping d = Inr (a, d') \<Longrightarrow> d' = d"
  "cmd_exists k d = Inr (n, d') \<Longrightarrow> d' = d"
  "cmd_smembers k d = Inr (S, d') \<Longrightarrow> d' = d"
  "cmd_scard k d = Inr (n, d') \<Longrightarrow> d' = d"
  by (auto simp: cmd_ping_def cmd_exists_def cmd_smembers_def cmd_scard_def
      split: option.splits rval.splits)

lemma cmd_writes:
  "cmd_sadd k v d = Inr (n, d') \<Longrightarrow> k' \<noteq> k \<Longrightarrow> d' k' = d k'"
  "cmd_srem k v d = Inr (n, d') \<Longrightarrow> k' \<noteq> k \<Longrightarrow> d' k' = d k'"
  "cmd_set k v d = Inr (b, d') \<Longrightarrow> k' \<noteq> k \<Longrightarrow> d' k' = d k'"
  "cmd_delete k d = Inr (n, d') \<Longrightarrow> k' \<noteq> k \<Longrightarrow> d' k' = d k'"
  by (auto simp: cmd_sadd_def cmd_srem_def cmd_set_def cmd_delete_def
      split: option.splits rval.splits if_splits)

lemma preserves_same_outside_call:
  assumes "\<And>d a d' k. c d = Inr (a, d') \<Longrightarrow> k \<notin> K \<Longrightarrow> d' k = d k"
  shows "preserves (same_outside K) (redis_call c)"
  by (rule preserves_redis_call) (auto simp: same_outside_def assms)

lemma call_same_outside:
  "preserves (same_outside K) (redis_call cmd_ping)"
  "preserves (same_outside K) (redis_call (cmd_exists k))"
  "preserves (same_outside K) (redis_call (cmd_smembers k))"
  "preserves (same_outside K) (redis_call (cmd_scard k))"
  "k \<in> K \<Longrightarrow> preserves (same_outside K) (redis_call (cmd_sadd k v))"
  "k \<in> K \<Longrightarrow> preserves (same_outside K) (redis_call (cmd_srem k v))"
  "k \<in> K \<Longrightarrow> preserves (same_outside K) (redis_call (cmd_set k v))"
  "k \<in> K \<Longrightarrow> preserves (same_outside K) (redis_call (cmd_delete k))"
  by (rule preserves_same_outside_call; auto dest: cmd_reads cmd_writes)+

lemmas same_outside_intros =
  preserves_bind [OF same_outside_transp] preserves_catch [OF same_outside_transp]
  preserves_catch_all [OF same_outside_transp]
  preserves_return [of "same_outside K" for K, OF same_outside_refl]
  preserves_raise [of "same_outside K" for K, OF same_outside_refl]
  call_same_outside

lemma check_redis_connection_same: "preserves (same_outside {}) (check_redis_connection r)"
  unfolding check_redis_connection_def
  by (auto intro!: same_outside_intros)

lemma same_outside_mono: "preserves (same_outside K) m \<Longrightarrow> K \<subseteq> L \<Longrightarrow> preserves (same_outside L) m"
  by (auto simp: preserves_def same_outside_def)

lemma delete_station_touches:
  "preserves (same_outside (case name of None \<Rightarrow> {} | Some n \<Rightarrow> {''stations'', urls_key n}))
     (delete_station r name)"
  unfolding delete_station_def
  by (auto intro!: same_outside_intros same_outside_mono [OF check_redis_connection_same]
      split: option.splits)


subsection \<open>Runs without faults\<close>

lemma check_redis_connection_ok:
  "faults w = [] \<Longrightarrow> check_redis_connection True w = (Inr True, w)"
  by (simp add: check_redis_connection_def io_catch_all_def io_bind_def io_return_def
      redis_call_no_fault cmd_ping_def)

lemma wf_db_cases:
  assumes "wf_db d"
  obtains (absent) "d ''stations'' = None" | (present) S where "d ''stations'' = Some (RSet S)" "finite S" "S \<noteq> {}"
  using assms by (cases "d ''stations''") (auto simp: wf_db_def split: rval.splits, metis rval.exhaust)

lemma wf_db_urls_cases:
  assumes "wf_db d"
  obtains (absent) "d (urls_key s) = None" | (present) S where "d (urls_key s) = Some (RSet S)" "finite S" "S \<noteq> {}"
  using assms by (cases "d (urls_key s)") (auto simp: wf_db_def split: rval.splits, metis rval.exhaust)

lemma smembers_stations:
  "wf_db d \<Longrightarrow> cmd_smembers ''stations'' d = Inr (members d ''stations'', d)"
  by (erule wf_db_cases) (simp_all add: cmd_smembers_def members_def)

lemma smembers_urls:
  "wf_db d \<Longrightarrow> cmd_smembers (urls_key s) d = Inr (members d (urls_key s), d)"
  by (erule wf_db_urls_cases [of d s]) (simp_all add: cmd_smembers_def members_def)

lemma scard_urls:
  "wf_db d \<Longrightarrow> cmd_scard (urls_key s) d = Inr (int (card (members d (urls_key s))), d)"
  by (erule wf_db_urls_cases [of d s]) (simp_all add: cmd_scard_def members_def)

lemma srem_stations:
  "wf_db d \<Longrightarrow> cmd_srem ''stations'' v d =
     Inr (if v \<in> members d ''stations'' then 1 else 0, db_srem ''stations'' v d)"
  by (erule wf_db_cases) (auto simp: cmd_srem_def members_def db_srem_def)

lemma srem_urls:
  "wf_db d \<Longrightarrow> cmd_srem (urls_key s) v d =
     Inr (if v \<in> members d (urls_key s) then 1 else 0, db_srem (urls_key s) v d)"
  by (erule wf_db_urls_cases [of d s]) (auto simp: cmd_srem_def members_def db_srem_def)

lemma members_db_srem [simp]:
  "members (db_srem k v d) k' = (if k' = k then members d k - {v} else members d k')"
  by (auto simp: db_srem_def members_def)

lemma db_srem_other [simp]: "k' \<noteq> k \<Longrightarrow> db_srem k v d k' = d k'"
  by (simp add: db_srem_def)

lemma members_upd [simp]:
  "members (d(k := v)) k' = (if k' = k then (case v of Some (RSet S) \<Rightarrow> S | _ \<Rightarrow> {}) else members d k')"
  by (simp add: members_def)

lemma wf_db_srem: "wf_db d \<Longrightarrow> wf_db (db_srem k v d)"
  by (auto simp: wf_db_def db_srem_def members_def split: if_splits option.splits rval.splits)

lemma delete_station_no_fault:
  assumes "faults w = []" "wf_db (db w)" "n \<noteq> []" "n \<noteq> ''General''"
  shows "delete_station True (Some n) w =
     (Inr (Some (''Station \"'' @ n @ ''\" deleted (''
                  @ str_int (int (card (members (db w) (urls_key n)))) @ '' URLs removed)'',
                 ''success'')),
      w\<lparr>db := (db_srem ''stations'' n (db w))(urls_key n := None)\<rparr>)"
  using assms
  by (simp add: delete_station_def check_redis_connection_ok io_defs redis_call_no_fault
      scard_urls srem_stations cmd_delete_def)


lemma wf_db_empty: "wf_db Map.empty"
  by (simp add: wf_db_def)

lemma wf_db_scenario: "wf_db scenario_db"
  by (auto simp: wf_db_def scenario_db_def urls_key_def split: if_splits)

lemma world_of_simps [simp]:
  "db (world_of d fs net) = d" "faults (world_of d fs net) = fs"
  "probed (world_of d fs net) = []" "slept (world_of d fs net) = []"
  "order (world_of d fs net) = sorted_list_of_set"
  by (simp_all add: world_of_def)

lemma order_ok_world_of: "order_ok (world_of d fs net)"
  by (simp add: order_ok_def)

subsection \<open>The dashboard: \<^verbatim>\<open>delete_station\<close>\<close>

text \<open>
  C10. \<^verbatim>\<open>delete_station\<close> never changes, and so never deletes, a status key, and it leaves
  the URL set of every other station as it was, whatever the backend does. When it runs
  to the end for a station other than \<^verbatim>\<open>General\<close>, the station is removed from the station
  set and its whole URL set is deleted; the status entries of its URLs stay behind.
\<close>

theorem delete_station_effect:
  fixes r name w
  defines "w' \<equiv> snd (delete_station r name w)"
  shows "(\<forall>u. db w' (status_key u) = db w (status_key u))
       \<and> (\<forall>s. name \<noteq> Some s \<longrightarrow> db w' (urls_key s) = db w (urls_key s))
       \<and> (\<forall>n. r \<and> name = Some n \<and> n \<noteq> [] \<and> n \<noteq> ''General'' \<and> faults w = [] \<and> wf_db (db w) \<longrightarrow>
              members (db w') ''stations'' = members (db w) ''stations'' - {n}
            \<and> db w' (urls_key n) = None
            \<and> (\<exists>msg. fst (delete_station r name w) = Inr (Some (msg, ''success''))))"
proof -
  have frame: "same_outside (case name of None \<Rightarrow> {} | Some n \<Rightarrow> {''stations'', urls_key n}) w w'"
    using delete_station_touches [of name r] unfolding w'_def preserves_def by blast
  have 1: "db w' (status_key u) = db w (status_key u)" for u
    using frame by (cases name) (simp_all add: same_outside_def)
  have 2: "db w' (urls_key s) = db w (urls_key s)" if "name \<noteq> Some s" for s
    using frame that by (cases name) (auto simp: same_outside_def)
  have 3: "members (db w') ''stations'' = members (db w) ''stations'' - {n}
            \<and> db w' (urls_key n) = None
            \<and> (\<exists>msg. fst (delete_station r name w) = Inr (Some (msg, ''success'')))"
    if "r" "name = Some n" "n \<noteq> []" "n \<noteq> ''General''" "faults w = []" "wf_db (db w)" for n
    using that unfolding w'_def by (simp add: delete_station_no_fault)
  show ?thesis using 1 2 3 by blast
qed

text \<open>
  In the scenario, deleting \<^verbatim>\<open>Work\<close> leaves the status of the URL that only \<^verbatim>\<open>Work\<close> held.
\<close>

theorem delete_station_effect_witness:
  "members (db (snd (delete_station True (Some ''Work'') (world_of scenario_db [] quiet_net))))
      ''stations'' = {''General''}
   \<and> db (snd (delete_station True (Some ''Work'') (world_of scenario_db [] quiet_net)))
       (urls_key ''Work'') = None
   \<and> db (snd (delete_station True (Some ''Work'') (world_of scenario_db [] quiet_net)))
       (urls_key ''General'') = Some (RSet {''https://example.com''})
   \<and> db (snd (delete_station True (Some ''Work'') (world_of scenario_db [] quiet_net)))
       (status_key ''https://nonexistent.invalid'') = Some (RString ''PENDING'')"
  using delete_station_effect [of True "Some ''Work''" "world_of scenario_db [] quiet_net"]
    wf_db_scenario
  by (auto simp: scenario_db_def members_def urls_key_def status_key_def)

subsection \<open>The dashboard: \<^verbatim>\<open>add_url\<close>\<close>








subsection \<open>The dashboard: \<^verbatim>\<open>delete_url\<close>\<close>

lemma url_exists_in_no_fault:
  "faults w = [] \<Longrightarrow> wf_db (db w) \<Longrightarrow>
   url_exists_in url ss w = (Inr (\<exists>s \<in> set ss. url \<in> members (db w) (urls_key s)), w)"
  by (induction ss) (simp_all add: redis_call_no_fault smembers_urls)

lemma wf_db_finite_stations: "wf_db d \<Longrightarrow> finite (members d ''stations'')"
  by (erule wf_db_cases) (simp_all add: members_def)

lemma wf_db_finite_urls: "wf_db d \<Longrightarrow> finite (members d (urls_key s))"
  by (erule wf_db_urls_cases [of d s]) (simp_all add: members_def)

lemma order_okD: "order_ok w \<Longrightarrow> finite S \<Longrightarrow> set (order w S) = S"
  "order_ok w \<Longrightarrow> finite S \<Longrightarrow> distinct (order w S)"
  by (simp_all add: order_ok_def)

lemma delete_url_no_fault:
  assumes "faults w = []" "wf_db (db w)" "order_ok w" "url \<noteq> []" "station \<noteq> []"
  shows "delete_url True (Some url) (Some station) w =
     (Inr (Some (''URL removed'', ''success'')),
      w\<lparr>db := (if \<exists>s \<in> members (db w) ''stations''.
                     url \<in> members (db_srem (urls_key station) url (db w)) (urls_key s)
                then db_srem (urls_key station) url (db w)
                else (db_srem (urls_key station) url (db w))(status_key url := None))\<rparr>)"
proof -
  let ?d1 = "db_srem (urls_key station) url (db w)"
  let ?w1 = "w\<lparr>db := ?d1\<rparr>"
  have wf1: "wf_db ?d1" using assms(2) by (rule wf_db_srem)
  have st: "members ?d1 ''stations'' = members (db w) ''stations''" by simp
  have fin: "finite (members (db w) ''stations'')" using assms(2) by (rule wf_db_finite_stations)
  have ord: "set (order ?w1 (members ?d1 ''stations'')) = members (db w) ''stations''"
    using order_okD(1) [OF assms(3) fin] by simp
  have scan: "url_exists_in url (order ?w1 (members ?d1 ''stations'')) ?w1 =
     (Inr (\<exists>s \<in> members (db w) ''stations''. url \<in> members ?d1 (urls_key s)), ?w1)"
    using url_exists_in_no_fault [of ?w1 url "order ?w1 (members ?d1 ''stations'')"] assms(1) wf1
    unfolding ord by simp
  show ?thesis
    using assms(1,2,4,5) wf1 scan
    by (simp add: delete_url_def check_redis_connection_ok io_defs redis_call_no_fault
        srem_urls smembers_stations cmd_delete_def)
qed

lemma delete_url_touches:
  "preserves (same_outside (case (url_field, station_field) of
                              (Some url, Some station) \<Rightarrow> {urls_key station, status_key url}
                            | _ \<Rightarrow> {}))
     (delete_url r url_field station_field)"
proof -
  have scan: "preserves (same_outside K) (url_exists_in url ss)" for K url ss
    unfolding preserves_def
  proof
    fix w show "same_outside K w (snd (url_exists_in url ss w))"
    proof (induction ss arbitrary: w)
      case Nil
      then show ?case by (simp add: same_outside_refl)
    next
      case (Cons s ss)
      show ?case
      proof (rule redis_call_cases [of w "cmd_smembers (urls_key s)"])
        fix e rest assume "faults w = Some e # rest"
          "redis_call (cmd_smembers (urls_key s)) w = (Inl (Raised e), w\<lparr>faults := rest\<rparr>)"
        then show ?thesis by (simp add: same_outside_def)
      next
        fix e assume "cmd_smembers (urls_key s) (db w) = Inl e"
          "redis_call (cmd_smembers (urls_key s)) w = (Inl (Raised e), w\<lparr>faults := tl (faults w)\<rparr>)"
        then show ?thesis by (simp add: same_outside_def)
      next
        fix a d assume c: "cmd_smembers (urls_key s) (db w) = Inr (a, d)"
          and r: "redis_call (cmd_smembers (urls_key s)) w = (Inr a, w\<lparr>faults := tl (faults w), db := d\<rparr>)"
        have d: "d = db w" using c by (rule cmd_reads)
        have "same_outside K (w\<lparr>faults := tl (faults w), db := d\<rparr>)
                (snd (url_exists_in url ss (w\<lparr>faults := tl (faults w), db := d\<rparr>)))"
          by (rule Cons.IH)
        then show ?thesis using r d by (auto simp: same_outside_def)
      qed
    qed
  qed
  have scan': "preserves (same_outside K) (\<lambda>w. url_exists_in url (order w S) w)" for K url S
    using scan [of K url] by (simp add: preserves_def)
  show ?thesis
    unfolding delete_url_def
    by (auto intro!: same_outside_intros same_outside_mono [OF check_redis_connection_same]
        scan'
        split: option.splits)
qed

subsection \<open>Relations that the sentinel preserves\<close>

lemma connect_attempt_preserves:
  assumes "transp R" "\<And>w. R w w"
    and "preserves R (redis_call cmd_ping)"
    and "preserves R (redis_call (cmd_exists ''stations''))"
    and "preserves R (redis_call (cmd_sadd ''stations'' ''General''))"
  shows "preserves R connect_attempt"
  unfolding connect_attempt_def
  by (intro preserves_bind preserves_if preserves_return assms)

lemma connect_attempts_preserves:
  assumes "transp R" "\<And>w. R w w"
    and "preserves R connect_attempt"
    and "preserves R (time_sleep retry_delay)"
  shows "preserves R (connect_attempts as)"
  unfolding preserves_def
proof
  fix w show "R w (snd (connect_attempts as w))"
  proof (induction as arbitrary: w)
    case Nil
    then show ?case by (simp add: assms(2))
  next
    case (Cons a as)
    obtain res w' where att: "connect_attempt w = (res, w')" by (cases "connect_attempt w")
    have 1: "R w w'" using assms(3) att by (rule preservesD)
    obtain res2 w'' where sl: "time_sleep retry_delay w' = (res2, w'')"
      by (cases "time_sleep retry_delay w'")
    have 2: "R w' w''" using assms(4) sl by (rule preservesD)
    have 3: "R w w''" using 1 2 assms(1) by (blast dest: transpD)
    have 4: "R w (snd (connect_attempts as w''))"
      using 3 Cons.IH [of w''] assms(1) by (blast dest: transpD)
    show ?case using att sl 1 3 4
      by (auto simp: sys_exit_def split: sum.splits abort.splits)
  qed
qed

lemma connect_redis_preserves:
  assumes "transp R" "\<And>w. R w w"
    and "preserves R (redis_call cmd_ping)"
    and "preserves R (redis_call (cmd_exists ''stations''))"
    and "preserves R (redis_call (cmd_sadd ''stations'' ''General''))"
    and "preserves R (time_sleep retry_delay)"
  shows "preserves R connect_redis"
  unfolding connect_redis_def
  by (intro connect_attempts_preserves connect_attempt_preserves assms)

lemma check_url_preserves:
  assumes "transp R" "\<And>w. R w w"
    and "preserves R (requests_get url hdrs (request_timeout cfg))"
  shows "preserves R (check_url cfg url hdrs)"
  unfolding check_url_def Let_def
  by (intro preserves_catch preserves_bind assms)
     (auto intro!: preserves_return preserves_raise assms(2) split: http_result.splits)

lemma process_url_preserves:
  assumes "transp R" "\<And>w. R w w"
    and "\<And>h t. preserves R (requests_get url h t)"
    and "\<And>v. preserves R (redis_call (cmd_set (status_key url) v))"
    and "\<And>t. preserves R (time_sleep t)"
  shows "preserves R (process_url cfg url)"
  unfolding process_url_def
  by (intro preserves_catch preserves_bind preserves_if preserves_return preserves_raise
        check_url_preserves assms)

lemma collect_urls_preserves:
  assumes "transp R" "\<And>w. R w w"
    and "\<And>k. preserves R (redis_call (cmd_smembers k))"
  shows "preserves R (collect_urls ss acc)"
  unfolding preserves_def
proof
  fix w show "R w (snd (collect_urls ss acc w))"
  proof (induction ss arbitrary: w acc)
    case Nil
    then show ?case by (simp add: assms(2))
  next
    case (Cons s ss)
    obtain res w' where c: "redis_call (cmd_smembers (urls_key s)) w = (res, w')"
      by (cases "redis_call (cmd_smembers (urls_key s)) w")
    have 1: "R w w'" using assms(3) c by (rule preservesD)
    have 2: "R w (snd (collect_urls ss acc' w'))" for acc'
      using 1 Cons.IH [of w' acc'] assms(1) by (blast dest: transpD)
    show ?case using c 1 2 by (auto split: sum.splits)
  qed
qed

lemma enumerate_urls_preserves:
  assumes "transp R" "\<And>w. R w w"
    and "\<And>k. preserves R (redis_call (cmd_smembers k))"
  shows "preserves R enumerate_urls"
proof -
  have "preserves R (\<lambda>w. collect_urls (order w S) {} w)" for S
    using collect_urls_preserves [OF assms] by (simp add: preserves_def)
  then show ?thesis
    unfolding enumerate_urls_def by (intro preserves_bind assms)
qed

lemma sweep_preserves:
  assumes "transp R" "\<And>w. R w w"
    and "\<And>k. preserves R (redis_call (cmd_smembers k))"
    and "\<And>url h t. preserves R (requests_get url h t)"
    and "\<And>url v. preserves R (redis_call (cmd_set (status_key url) v))"
    and "\<And>t. preserves R (time_sleep t)"
  shows "preserves R (sweep cfg r)"
proof -
  have "preserves R (io_foreach us (process_url cfg))" for us
    by (intro preserves_foreach process_url_preserves assms)
  then have "preserves R (\<lambda>w. io_foreach (order w S) (process_url cfg) w)" for S
    by (simp add: preserves_def)
  then show ?thesis
    unfolding sweep_def
    by (intro preserves_if preserves_raise preserves_bind enumerate_urls_preserves assms)
qed

lemma check_urls_preserves:
  assumes "transp R" "\<And>w. R w w"
    and "preserves R (sweep cfg True)" "preserves R (sweep cfg False)"
    and "preserves R connect_redis"
    and "\<And>t. preserves R (time_sleep t)"
  shows "R w (snd (check_urls cfg turns r w))"
proof (induction turns arbitrary: w r)
  case 0
  then show ?case by (simp add: assms(2))
next
  case (Suc turns)
  obtain res w' where s: "sweep cfg r w = (res, w')" by (cases "sweep cfg r w")
  have "preserves R (sweep cfg r)" using assms(3,4) by (cases r) simp_all
  then have 1: "R w w'" using s by (rule preservesD)
  obtain res2 w2 where c: "connect_redis w' = (res2, w2)" by (cases "connect_redis w'")
  have "R w' w2" using assms(5) c by (rule preservesD)
  with 1 have 2: "R w w2" using assms(1) by (blast dest: transpD)
  obtain res3 w3 where sl: "time_sleep 5 w' = (res3, w3)" by (cases "time_sleep 5 w'")
  have "R w' w3" using assms(6) sl by (rule preservesD)
  with 1 have 3: "R w w3" using assms(1) by (blast dest: transpD)
  have 4: "R w (snd (check_urls cfg turns r' w'))" for r'
    using 1 Suc.IH [of w' r'] assms(1) by (blast dest: transpD)
  have 5: "R w (snd (check_urls cfg turns r' w2))" for r'
    using 2 Suc.IH [of w2 r'] assms(1) by (blast dest: transpD)
  have 6: "R w (snd (check_urls cfg turns r' w3))" for r'
    using 3 Suc.IH [of w3 r'] assms(1) by (blast dest: transpD)
  show ?case using s c sl 1 2 3 4 5 6
    by (auto split: sum.splits abort.splits)
qed

lemma main_preserves:
  assumes "transp R" "\<And>w. R w w"
    and "preserves R (redis_call cmd_ping)"
    and "\<And>k. preserves R (redis_call (cmd_exists k))"
    and "preserves R (redis_call (cmd_sadd ''stations'' ''General''))"
    and "\<And>k. preserves R (redis_call (cmd_smembers k))"
    and "\<And>url h t. preserves R (requests_get url h t)"
    and "\<And>url v. preserves R (redis_call (cmd_set (status_key url) v))"
    and "\<And>t. preserves R (time_sleep t)"
  shows "R w (snd (main cfg turns w))"
proof -
  have c: "preserves R connect_redis"
    by (intro connect_redis_preserves assms)
  have s: "preserves R (sweep cfg r)" for r
    by (intro sweep_preserves assms)
  obtain res w' where cr: "connect_redis w = (res, w')" by (cases "connect_redis w")
  have 1: "R w w'" using c cr by (rule preservesD)
  have "R w' (snd (check_urls cfg turns r w'))" for r
    by (rule check_urls_preserves [OF assms(1,2) s s c assms(9)])
  with 1 have "R w (snd (check_urls cfg turns r w'))" for r
    using assms(1) by (blast dest: transpD)
  then show ?thesis using cr 1 by (auto simp: main_def split: sum.splits)
qed

subsection \<open>The sentinel keeps every key\<close>

lemma keeps_keys_refl: "keeps_keys w w"
  by (simp add: keeps_keys_def)

lemma keeps_keys_transp: "transp keeps_keys"
  by (auto simp: keeps_keys_def transp_def)

lemma call_keeps_keys:
  "preserves keeps_keys (redis_call cmd_ping)"
  "preserves keeps_keys (redis_call (cmd_exists k))"
  "preserves keeps_keys (redis_call (cmd_smembers k))"
  "preserves keeps_keys (redis_call (cmd_sadd k v))"
  "preserves keeps_keys (redis_call (cmd_set k v))"
  by (rule preserves_redis_call;
      auto simp: keeps_keys_def cmd_ping_def cmd_exists_def cmd_smembers_def cmd_sadd_def
        cmd_set_def split: option.splits rval.splits if_splits)+

lemma log_keeps_keys:
  "preserves keeps_keys (time_sleep t)" "preserves keeps_keys (requests_get url hdrs timeout)"
  by (simp_all add: preserves_def time_sleep_def requests_get_def keeps_keys_def)

lemma main_keeps_keys: "keeps_keys w (snd (main cfg turns w))"
  by (rule main_preserves)
     (rule keeps_keys_transp keeps_keys_refl call_keeps_keys log_keeps_keys)+

subsection \<open>When a status key is deleted\<close>

text \<open>
  C7. \<^verbatim>\<open>delete_url\<close> removes the URL from the station's set and then deletes the status
  key of the URL if and only if no station of the station set still holds the URL (for a
  run in which no backend call fails); it never touches the status key of another URL,
  whatever the backend does. The monitoring process (\<^verbatim>\<open>connect_redis\<close> followed by
  \<^verbatim>\<open>check_urls\<close>, for any number of turns and any behaviour of backend and network) never
  deletes a key: every key of the database is still there afterwards.
\<close>

theorem status_key_deletion:
  fixes url station w cfg turns
  defines "w' \<equiv> snd (delete_url True (Some url) (Some station) w)"
  defines "referenced \<equiv> (\<exists>s \<in> members (db w') ''stations''. url \<in> members (db w') (urls_key s))"
  shows "(faults w = [] \<and> wf_db (db w) \<and> order_ok w \<and> url \<noteq> [] \<and> station \<noteq> [] \<longrightarrow>
            members (db w') (urls_key station) = members (db w) (urls_key station) - {url}
          \<and> db w' (status_key url) = (if referenced then db w (status_key url) else None))
       \<and> (\<forall>v. v \<noteq> url \<longrightarrow> db w' (status_key v) = db w (status_key v))
       \<and> (\<forall>k. db w k \<noteq> None \<longrightarrow> db (snd (main cfg turns w)) k \<noteq> None)"
proof -
  have "same_outside {urls_key station, status_key url} w w'"
    using delete_url_touches [of "Some url" "Some station" True]
    unfolding w'_def preserves_def by simp
  then have frame: "db w' (status_key v) = db w (status_key v)" if "v \<noteq> url" for v
    using that by (simp add: same_outside_def)
  have core: "db (snd (main cfg turns w)) k \<noteq> None" if "db w k \<noteq> None" for k
    using main_keeps_keys [of w cfg turns] that by (simp add: keeps_keys_def)
  have eff: "members (db w') (urls_key station) = members (db w) (urls_key station) - {url}
          \<and> db w' (status_key url) = (if referenced then db w (status_key url) else None)"
    if a: "faults w = []" "wf_db (db w)" "order_ok w" "url \<noteq> []" "station \<noteq> []"
  proof -
    let ?d1 = "db_srem (urls_key station) url (db w)"
    let ?ref = "\<exists>s \<in> members (db w) ''stations''. url \<in> members ?d1 (urls_key s)"
    have w': "db w' = (if ?ref then ?d1 else ?d1(status_key url := None))"
      unfolding w'_def by (simp add: delete_url_no_fault [OF a])
    have r: "referenced = ?ref"
      unfolding referenced_def w' by simp
    show ?thesis unfolding r unfolding w' by simp
  qed
  show ?thesis using frame core eff by blast
qed

text \<open>
  In the scenario: the shared URL keeps its status when it is removed from \<^verbatim>\<open>General\<close>;
  the URL that only \<^verbatim>\<open>Work\<close> holds loses it when it is removed from \<^verbatim>\<open>Work\<close>.
\<close>

theorem status_key_deletion_witness:
  "db (snd (delete_url True (Some ''https://example.com'') (Some ''General'')
              (world_of scenario_db [] quiet_net))) (status_key ''https://example.com'')
     = Some (RString ''PENDING'')
   \<and> members (db (snd (delete_url True (Some ''https://example.com'') (Some ''General'')
              (world_of scenario_db [] quiet_net)))) (urls_key ''General'') = {}
   \<and> db (snd (delete_url True (Some ''https://nonexistent.invalid'') (Some ''Work'')
              (world_of scenario_db [] quiet_net))) (status_key ''https://nonexistent.invalid'')
     = None
   \<and> db (snd (main default_config 3 (world_of scenario_db [] quiet_net)))
        (status_key ''https://nonexistent.invalid'') \<noteq> None"
proof -
  let ?w = "world_of scenario_db [] quiet_net"
  note wf = wf_db_scenario and ok = order_ok_world_of [of scenario_db "[]" quiet_net]
  have d1: "db (snd (delete_url True (Some ''https://example.com'') (Some ''General'') ?w))
      = (db_srem (urls_key ''General'') ''https://example.com'' scenario_db)"
    using wf ok
    by (simp add: delete_url_no_fault)
       (auto simp: scenario_db_def urls_key_def members_def db_srem_def)
  have d2: "db (snd (delete_url True (Some ''https://nonexistent.invalid'') (Some ''Work'') ?w))
      = (db_srem (urls_key ''Work'') ''https://nonexistent.invalid'' scenario_db)
          (status_key ''https://nonexistent.invalid'' := None)"
    using wf ok
    by (simp add: delete_url_no_fault)
       (auto simp: scenario_db_def urls_key_def members_def db_srem_def)
  show ?thesis
    using
      status_key_deletion [where url = "''https://example.com''" and station = "''General''"
        and w = ?w and cfg = default_config and turns = 3]
      status_key_deletion [where url = "''https://nonexistent.invalid''" and station = "''Work''"
        and w = ?w and cfg = default_config and turns = 3]
      wf ok
    unfolding d1 d2
    by (auto simp: scenario_db_def urls_key_def status_key_def members_def db_srem_def)
qed

subsection \<open>Results of a backend call\<close>

lemma redis_call_InrD:
  "redis_call c w = (Inr a, w') \<Longrightarrow> c (db w) = Inr (a, db w')"
  by (rule redis_call_cases [of w c]) auto

lemma redis_call_InlD:
  "redis_call c w = (Inl x, w') \<Longrightarrow> db w' = db w \<and> (\<exists>e. x = Raised e)"
  by (rule redis_call_cases [of w c]) auto

lemma redis_call_env:
  "redis_call c w = (res, w') \<Longrightarrow>
     order w' = order w \<and> http w' = http w \<and> probed w' = probed w \<and> slept w' = slept w"
  by (rule redis_call_cases [of w c]) auto

subsection \<open>Computations that never call \<^verbatim>\<open>sys.exit\<close>\<close>











subsection \<open>One attempt to connect\<close>

lemma connect_attempt_cases:
  obtains (failed) e w' where "connect_attempt w = (Inl (Raised e), w')" "db w' = db w"
  | (present) w' where "connect_attempt w = (Inr (), w')" "db w ''stations'' \<noteq> None"
      "db w' = db w"
  | (created) w' where "connect_attempt w = (Inr (), w')" "db w ''stations'' = None"
      "db w' = (db w)(''stations'' \<mapsto> RSet {''General''})"
proof -
  obtain r1 w1 where p: "redis_call cmd_ping w = (r1, w1)" by (cases "redis_call cmd_ping w")
  obtain r2 w2 where x: "redis_call (cmd_exists ''stations'') w1 = (r2, w2)"
    by (cases "redis_call (cmd_exists ''stations'') w1")
  obtain r3 w3 where a: "redis_call (cmd_sadd ''stations'' ''General'') w2 = (r3, w3)"
    by (cases "redis_call (cmd_sadd ''stations'' ''General'') w2")
  have d1: "db w1 = db w"
    using p by (cases r1) (auto dest!: redis_call_InlD redis_call_InrD simp: cmd_ping_def)
  have d2: "db w2 = db w"
    using x d1 by (cases r2) (auto dest!: redis_call_InlD redis_call_InrD simp: cmd_exists_def)
  show ?thesis
  proof (cases r1)
    case (Inl x1)
    then obtain e where "x1 = Raised e" using p by (auto dest: redis_call_InlD)
    then show ?thesis using failed [of e w1] p Inl d1
      by (simp add: connect_attempt_def io_bind_def)
  next
    case r1: (Inr b)
    show ?thesis
    proof (cases r2)
      case (Inl x2)
      then obtain e where "x2 = Raised e" using x by (auto dest: redis_call_InlD)
      then show ?thesis using failed [of e w2] p x r1 Inl d2
        by (simp add: connect_attempt_def io_bind_def)
    next
      case r2: (Inr n)
      have n: "n = (if db w ''stations'' = None then 0 else 1)"
        using x r2 d1 by (auto dest!: redis_call_InrD simp: cmd_exists_def)
      show ?thesis
      proof (cases "db w ''stations'' = None")
        case False
        then show ?thesis using present [of w2] p x r1 r2 n d2
          by (simp add: connect_attempt_def io_bind_def io_return_def)
      next
        case True
        show ?thesis
        proof (cases r3)
          case (Inl x3)
          then obtain e where e: "x3 = Raised e" and "db w3 = db w2"
            using a by (auto dest: redis_call_InlD)
          then show ?thesis using failed [of e w3] p x a r1 r2 n True Inl d2
            by (simp add: connect_attempt_def io_bind_def)
        next
          case (Inr m)
          then have "db w3 = (db w)(''stations'' \<mapsto> RSet {''General''})"
            using a d2 True by (auto dest!: redis_call_InrD simp: cmd_sadd_def)
          then show ?thesis using created [of w3] p x a r1 r2 n True Inr
            by (simp add: connect_attempt_def io_bind_def io_return_def)
        qed
      qed
    qed
  qed
qed

lemma bootstrap_rel_refl: "bootstrap_rel w w"
  by (simp add: bootstrap_rel_def)

lemma bootstrap_rel_transp: "transp bootstrap_rel"
  by (auto simp: bootstrap_rel_def transp_def)

lemma connect_attempt_bootstrap: "preserves bootstrap_rel connect_attempt"
  unfolding preserves_def
proof
  fix w show "bootstrap_rel w (snd (connect_attempt w))"
    by (rule connect_attempt_cases [of w]) (simp_all add: bootstrap_rel_def)
qed

lemma connect_redis_bootstrap: "preserves bootstrap_rel connect_redis"
  unfolding connect_redis_def
  by (intro connect_attempts_preserves bootstrap_rel_transp bootstrap_rel_refl
        connect_attempt_bootstrap)
     (simp add: preserves_def time_sleep_def bootstrap_rel_def)

lemma sleep_retry_delay:
  "time_sleep retry_delay w = (Inr (), w\<lparr>slept := slept w @ [retry_delay]\<rparr>)"
  by (simp add: time_sleep_def retry_delay_def)

lemma connect_attempts_Inr:
  "connect_attempts as w = (Inr r, w') \<Longrightarrow> as \<noteq> [] \<Longrightarrow> \<not> last as < max_retries - 1 \<Longrightarrow>
   r \<and> db w' ''stations'' \<noteq> None"
proof (induction as arbitrary: w)
  case Nil
  then show ?case by simp
next
  case (Cons a as)
  show ?case
  proof (rule connect_attempt_cases [of w])
    fix e w1 assume f: "connect_attempt w = (Inl (Raised e), w1)" "db w1 = db w"
    show ?thesis
    proof (cases "is_Exception e \<and> a < max_retries - 1")
      case True
      then have as: "as \<noteq> []" using Cons.prems(2,3) by (cases as) auto
      have l: "\<not> last as < max_retries - 1" using Cons.prems(3) as by simp
      have "connect_attempts as (w1\<lparr>slept := slept w1 @ [retry_delay]\<rparr>) = (Inr r, w')"
        using Cons.prems(1) f True by (simp add: sleep_retry_delay)
      then show ?thesis using as l by (rule Cons.IH)
    next
      case False
      then show ?thesis using Cons.prems(1) f by (auto simp: sys_exit_def split: if_splits)
    qed
  next
    fix w1 assume "connect_attempt w = (Inr (), w1)" "db w ''stations'' \<noteq> None" "db w1 = db w"
    then show ?thesis using Cons.prems(1) by auto
  next
    fix w1 assume "connect_attempt w = (Inr (), w1)" "db w ''stations'' = None"
      "db w1 = (db w)(''stations'' \<mapsto> RSet {''General''})"
    then show ?thesis using Cons.prems(1) by auto
  qed
qed

lemma upt_5: "[0 ..< 5] = [0, 1, 2, 3, 4::nat]"
  by (simp add: upt_rec)

lemma max_retries_upt: "[0 ..< max_retries] = [0, 1, 2, 3, 4]"
  by (simp add: max_retries_def upt_5)

lemma connect_redis_Inr:
  "connect_redis w = (Inr r, w') \<Longrightarrow> r \<and> db w' ''stations'' \<noteq> None"
  using connect_attempts_Inr [of "[0 ..< max_retries]" w r w']
  by (simp add: connect_redis_def max_retries_def upt_5)

lemma wf_db_members_stations:
  "wf_db d \<Longrightarrow> members d ''stations'' = {} \<longleftrightarrow> d ''stations'' = None"
  by (erule wf_db_cases) (simp_all add: members_def)

lemma connect_redis_no_fault:
  "faults w = [] \<Longrightarrow> fst (connect_redis w) = Inr True"
  by (simp add: connect_redis_def max_retries_upt connect_attempt_def io_bind_def io_return_def
      redis_call_no_fault cmd_ping_def cmd_exists_def cmd_sadd_def)

text \<open>
  C6. A connect without faults succeeds. Whenever \<^verbatim>\<open>connect_redis\<close> returns (under any
  faults survived on the way), it returns a client; the station set afterwards is
  \<^verbatim>\<open>{General}\<close> if it was empty, that is if the key \<^verbatim>\<open>stations\<close> was absent, and is the
  station set as it was otherwise; so it is not empty; and no other key has changed.
\<close>

theorem connect_redis_default_station:
  fixes w
  defines "w' \<equiv> snd (connect_redis w)"
  shows "(faults w = [] \<longrightarrow> fst (connect_redis w) = Inr True)
       \<and> (\<forall>r. fst (connect_redis w) = Inr r \<and> wf_db (db w) \<longrightarrow>
             r
           \<and> members (db w') ''stations'' =
               (if members (db w) ''stations'' = {} then {''General''}
                else members (db w) ''stations'')
           \<and> members (db w') ''stations'' \<noteq> {}
           \<and> (\<forall>k. k \<noteq> ''stations'' \<longrightarrow> db w' k = db w k))"
proof -
  have "r \<and> members (db w') ''stations'' =
               (if members (db w) ''stations'' = {} then {''General''}
                else members (db w) ''stations'')
           \<and> members (db w') ''stations'' \<noteq> {}
           \<and> (\<forall>k. k \<noteq> ''stations'' \<longrightarrow> db w' k = db w k)"
    if a: "fst (connect_redis w) = Inr r" "wf_db (db w)" for r
  proof -
    have c: "connect_redis w = (Inr r, w')" using a(1) unfolding w'_def by (cases "connect_redis w") simp
    have 1: "r" and 2: "db w' ''stations'' \<noteq> None" using connect_redis_Inr [OF c] by simp_all
    have 3: "bootstrap_rel w w'" using connect_redis_bootstrap c by (rule preservesD)
    show ?thesis
    proof (cases "db w ''stations'' = None")
      case True
      then have "db w' = (db w)(''stations'' \<mapsto> RSet {''General''})"
        using 2 3 by (auto simp: bootstrap_rel_def)
      then show ?thesis using 1 True a(2) by (simp add: wf_db_members_stations)
    next
      case False
      then have "db w' = db w" using 3 by (auto simp: bootstrap_rel_def)
      moreover have "members (db w) ''stations'' \<noteq> {}"
        using False a(2) by (simp add: wf_db_members_stations)
      ultimately show ?thesis using 1 by simp
    qed
  qed
  then show ?thesis using connect_redis_no_fault by blast
qed

text \<open>
  On an empty database the default station is created; on the scenario, after one failed
  attempt, the two stations are left as they are.
\<close>

theorem connect_redis_default_station_witness:
  "fst (connect_redis (world_of Map.empty [] quiet_net)) = Inr True
   \<and> members (db (snd (connect_redis (world_of Map.empty [] quiet_net)))) ''stations''
       = {''General''}
   \<and> fst (connect_redis (world_of scenario_db [Some RedisConnectionError] quiet_net)) = Inr True
   \<and> members (db (snd (connect_redis (world_of scenario_db [Some RedisConnectionError] quiet_net))))
        ''stations'' = {''General'', ''Work''}"
proof -
  have 1: "fst (connect_redis (world_of scenario_db [Some RedisConnectionError] quiet_net)) = Inr True"
    by (simp add: connect_redis_def upt_5 connect_attempt_def io_bind_def io_return_def
        redis_call_def cmd_ping_def cmd_exists_def cmd_sadd_def is_Exception_def max_retries_def
        sleep_retry_delay scenario_db_def)
  show ?thesis
    using connect_redis_default_station [of "world_of Map.empty [] quiet_net"]
      connect_redis_default_station [of "world_of scenario_db [Some RedisConnectionError] quiet_net"]
      1 wf_db_empty wf_db_scenario
    by (auto simp: members_def scenario_db_def)
qed

subsection \<open>The retry loop of \<^verbatim>\<open>connect_redis\<close>\<close>








subsection \<open>How the monitoring loop ends\<close>







subsection \<open>One target of a sweep\<close>

lemma check_url_world: "snd (check_url cfg url hdrs w) = w\<lparr>probed := probed w @ [url]\<rparr>"
  by (simp add: check_url_def io_defs requests_get_def Let_def split: http_result.splits)


lemma process_url_probed:
  "probed (snd (process_url cfg url w)) = probed w @ [url]
   \<and> order (snd (process_url cfg url w)) = order w"
proof -
  obtain r1 w1 where c: "check_url cfg url default_headers w = (r1, w1)"
    by (cases "check_url cfg url default_headers w")
  then have w1: "probed w1 = probed w @ [url]" "order w1 = order w"
    using check_url_world [of cfg url default_headers w] by simp_all
  have call: "probed (snd (redis_call k v)) = probed v \<and> order (snd (redis_call k v)) = order v"
    for k :: "bool command" and v
    using redis_call_env [of k v] by (cases "redis_call k v") simp
  have h: "probed (snd ((if is_Exception e then
              io_bind (redis_call (cmd_set (status_key url) ''DOWN (Processing Error)''))
                (\<lambda>_. io_return ())
            else io_raise e) v)) = probed v
        \<and> order (snd ((if is_Exception e then
              io_bind (redis_call (cmd_set (status_key url) ''DOWN (Processing Error)''))
                (\<lambda>_. io_return ())
            else io_raise e) v)) = order v" for e v
    using call [of "cmd_set (status_key url) ''DOWN (Processing Error)''" v]
    by (auto simp: io_bind_def io_return_def io_raise_def split: prod.splits sum.splits)
  have b: "probed (snd (io_bind (redis_call (cmd_set (status_key url) s))
                           (\<lambda>_. time_sleep (1 / 10)) v)) = probed v
        \<and> order (snd (io_bind (redis_call (cmd_set (status_key url) s))
                           (\<lambda>_. time_sleep (1 / 10)) v)) = order v" for s v
    using call [of "cmd_set (status_key url) s" v]
    by (auto simp: io_bind_def time_sleep_def split: prod.splits sum.splits)
  show ?thesis
  proof (cases r1)
    case (Inl x)
    then show ?thesis using c w1 h [of _ w1]
      by (cases x) (simp_all add: process_url_def io_catch_def io_bind_def)
  next
    case (Inr s)
    obtain r2 w2 where s2: "io_bind (redis_call (cmd_set (status_key url) s))
                           (\<lambda>_. time_sleep (1 / 10)) w1 = (r2, w2)"
      by (cases "io_bind (redis_call (cmd_set (status_key url) s)) (\<lambda>_. time_sleep (1 / 10)) w1")
    then have w2: "probed w2 = probed w1" "order w2 = order w1" using b [of s w1] by simp_all
    have "process_url cfg url w =
            (case r2 of Inl (Raised e) \<Rightarrow>
               (if is_Exception e then
                  io_bind (redis_call (cmd_set (status_key url) ''DOWN (Processing Error)''))
                    (\<lambda>_. io_return ())
                else io_raise e) w2
             | _ \<Rightarrow> (r2, w2))"
      using c Inr s2
      by (simp add: process_url_def io_catch_def io_bind_def [of "check_url cfg url default_headers"]
          split: sum.splits abort.splits)
    then show ?thesis using w1 w2 h [of _ w2]
      by (auto split: sum.splits abort.splits)
  qed
qed

lemma foreach_probed:
  "io_foreach us (process_url cfg) w = (Inr u, w') \<Longrightarrow>
   probed w' = probed w @ us \<and> order w' = order w"
proof (induction us arbitrary: w)
  case Nil
  then show ?case by simp
next
  case (Cons x us)
  obtain r1 w1 where p: "process_url cfg x w = (r1, w1)" by (cases "process_url cfg x w")
  then have w1: "probed w1 = probed w @ [x]" "order w1 = order w"
    using process_url_probed [of cfg x w] by simp_all
  show ?case
  proof (cases r1)
    case (Inl a)
    then show ?thesis using Cons.prems p by simp
  next
    case (Inr v)
    then have "io_foreach us (process_url cfg) w1 = (Inr u, w')" using Cons.prems p by simp
    then show ?thesis using Cons.IH [of w1] w1 by simp
  qed
qed


subsection \<open>Sweeps of the scenario\<close>

lemma order_stations: "sorted_list_of_set {''General'', ''Work''} = [''General'', ''Work'']"
  by simp

lemma order_urls:
  "sorted_list_of_set {''https://example.com'', ''https://nonexistent.invalid''}
     = [''https://example.com'', ''https://nonexistent.invalid'']"
  by simp

lemma insert_again: "insert a (insert b (insert a S)) = insert a (insert b S)"
  by auto

lemma scenario_enumerate:
  "enumerate_urls (world_of scenario_db [] net) =
     (Inr {''https://example.com'', ''https://nonexistent.invalid''}, world_of scenario_db [] net)"
  "enumerate_urls (world_of scenario_db (None # None # None # rest) net) =
     (Inr {''https://example.com'', ''https://nonexistent.invalid''}, world_of scenario_db rest net)"
  by (simp_all add: enumerate_urls_def io_bind_def redis_call_def cmd_smembers_def scenario_db_def
      world_of_def urls_key_def order_stations insert_again)

lemma world_of_http [simp]: "http (world_of d fs net) n url hdrs timeout = net n url"
  by (simp add: world_of_def)

lemmas probe_defs =
  process_url_def check_url_def requests_get_def time_sleep_def
  io_bind_def io_return_def io_raise_def io_catch_def redis_call_def cmd_set_def
  is_Exception_def is_requests_Timeout_def is_requests_ConnectionError_def
  is_requests_TooManyRedirects_def is_requests_RequestException_def
  scenario_net_def quiet_net_def answer_def default_config_def
  status_key_def py_int_def str_int_def str_nat_small str_nat_big digit_char_def

lemma scenario_sweep:
  "sweep default_config True (world_of scenario_db [] scenario_net) =
     (Inr (),
      (world_of scenario_db [] scenario_net)
        \<lparr>db := scenario_db
           (''status:https://example.com'' \<mapsto> RString ''UP (42ms)'',
            ''status:https://nonexistent.invalid'' \<mapsto> RString ''DOWN (Connection Error)''),
         probed := [''https://example.com'', ''https://nonexistent.invalid''],
         slept := [1 / 10, 1 / 10, 10]\<rparr>)"
  by (simp add: sweep_def scenario_enumerate order_urls probe_defs)




subsection \<open>The working set of a sweep\<close>

lemma smembers_InrD: "cmd_smembers k d = Inr (S, d') \<Longrightarrow> S = members d k \<and> d' = d"
  by (auto simp: cmd_smembers_def members_def split: option.splits rval.splits)

lemma collect_urls_Inr:
  "collect_urls ss acc w = (Inr S, w') \<Longrightarrow>
   S = acc \<union> (\<Union>s \<in> set ss. members (db w) (urls_key s))
   \<and> db w' = db w \<and> order w' = order w \<and> probed w' = probed w"
proof (induction ss arbitrary: acc w)
  case Nil
  then show ?case by simp
next
  case (Cons s ss)
  obtain r1 w1 where c: "redis_call (cmd_smembers (urls_key s)) w = (r1, w1)"
    by (cases "redis_call (cmd_smembers (urls_key s)) w")
  show ?case
  proof (cases r1)
    case (Inl a)
    then show ?thesis using Cons.prems c by simp
  next
    case (Inr us)
    then have 1: "us = members (db w) (urls_key s)" "db w1 = db w"
      using c by (auto dest!: redis_call_InrD smembers_InrD)
    have 2: "order w1 = order w" "probed w1 = probed w"
      using redis_call_env [OF c] by simp_all
    have "collect_urls ss (acc \<union> us) w1 = (Inr S, w')" using Cons.prems c Inr by simp
    then show ?thesis using Cons.IH [of "acc \<union> us" w1] 1 2 by auto
  qed
qed

lemma collect_urls_no_fault:
  "faults w = [] \<Longrightarrow> wf_db (db w) \<Longrightarrow>
   collect_urls ss acc w = (Inr (acc \<union> (\<Union>s \<in> set ss. members (db w) (urls_key s))), w)"
  by (induction ss arbitrary: acc) (auto simp: redis_call_no_fault smembers_urls)

lemma enumerate_urls_Inr:
  assumes "enumerate_urls w = (Inr S, w')" "wf_db (db w)" "order_ok w"
  shows "S = (\<Union>s \<in> members (db w) ''stations''. members (db w) (urls_key s))
         \<and> db w' = db w \<and> order w' = order w \<and> probed w' = probed w"
proof -
  obtain r1 w1 where c: "redis_call (cmd_smembers ''stations'') w = (r1, w1)"
    by (cases "redis_call (cmd_smembers ''stations'') w")
  show ?thesis
  proof (cases r1)
    case (Inl a)
    then show ?thesis using assms(1) c by (simp add: enumerate_urls_def io_bind_def)
  next
    case (Inr st)
    then have 1: "st = members (db w) ''stations''" "db w1 = db w"
      using c by (auto dest!: redis_call_InrD smembers_InrD)
    have 2: "order w1 = order w" "probed w1 = probed w"
      using redis_call_env [OF c] by simp_all
    have fin: "finite st" using 1 assms(2) by (simp add: wf_db_finite_stations)
    have 3: "set (order w st) = st" using order_okD(1) [OF assms(3) fin] .
    have "collect_urls (order w st) {} w1 = (Inr S, w')"
      using assms(1) c Inr 2 by (simp add: enumerate_urls_def io_bind_def)
    then show ?thesis using collect_urls_Inr [of "order w st" "{}" w1 S w'] 1 2 3 by simp
  qed
qed

lemma enumerate_urls_no_fault:
  assumes "faults w = []" "wf_db (db w)" "order_ok w"
  shows "enumerate_urls w =
           (Inr (\<Union>s \<in> members (db w) ''stations''. members (db w) (urls_key s)), w)"
proof -
  have fin: "finite (members (db w) ''stations'')" using assms(2) by (rule wf_db_finite_stations)
  show ?thesis
    using assms order_okD(1) [OF assms(3) fin]
    by (simp add: enumerate_urls_def io_bind_def redis_call_no_fault smembers_stations
        collect_urls_no_fault)
qed

lemma count_list_distinct:
  "distinct us \<Longrightarrow> count_list us u = (if u \<in> set us then 1 else 0)"
  by (induction us) auto

text \<open>
  C4. For every database the programs can build and every iteration order: the
  enumeration of a sweep, when it returns, returns exactly the union of the URL sets of
  all stations (and it does return when no backend call fails); and a sweep that runs to
  its end has passed every URL of that union to \<^verbatim>\<open>requests.get\<close> exactly once, and no
  other URL, however many stations hold it.
\<close>

theorem sweep_working_set:
  fixes w cfg
  defines "U \<equiv> (\<Union>s \<in> members (db w) ''stations''. members (db w) (urls_key s))"
  shows "wf_db (db w) \<and> order_ok w \<longrightarrow>
           (faults w = [] \<longrightarrow> fst (enumerate_urls w) = Inr U)
         \<and> (\<forall>S. fst (enumerate_urls w) = Inr S \<longrightarrow> S = U)
         \<and> (\<forall>w'. sweep cfg True w = (Inr (), w') \<longrightarrow>
               (\<exists>us. probed w' = probed w @ us
                     \<and> (\<forall>u. count_list us u = (if u \<in> U then 1 else 0))))"
proof (intro impI, elim conjE)
  assume wf: "wf_db (db w)" and ok: "order_ok w"
  have finU: "finite U"
    unfolding U_def using wf by (auto intro: wf_db_finite_stations wf_db_finite_urls)
  have 1: "fst (enumerate_urls w) = Inr U" if "faults w = []"
    using enumerate_urls_no_fault [OF that wf ok] unfolding U_def by simp
  have 2: "S = U" if "fst (enumerate_urls w) = Inr S" for S
    using enumerate_urls_Inr [of w S "snd (enumerate_urls w)", OF _ wf ok] that
    unfolding U_def by (cases "enumerate_urls w") simp
  have 3: "\<exists>us. probed w' = probed w @ us \<and> (\<forall>u. count_list us u = (if u \<in> U then 1 else 0))"
    if s: "sweep cfg True w = (Inr (), w')" for w'
  proof -
    obtain r1 w1 where e: "enumerate_urls w = (r1, w1)" by (cases "enumerate_urls w")
    then obtain S where S: "r1 = Inr S" using s by (cases r1) (simp_all add: sweep_def io_bind_def)
    have w1: "S = U" "order w1 = order w" "probed w1 = probed w"
      using enumerate_urls_Inr [OF _ wf ok, of S w1] e S unfolding U_def by simp_all
    obtain r2 w2 where f: "io_foreach (order w U) (process_url cfg) w1 = (r2, w2)"
      by (cases "io_foreach (order w U) (process_url cfg) w1")
    then obtain v where v: "r2 = Inr v" using s e S w1
      by (cases r2) (simp_all add: sweep_def io_bind_def)
    have p2: "probed w2 = probed w @ order w U"
      using foreach_probed [of "order w U" cfg w1 v w2] f v w1 by simp
    have "probed w' = probed w2"
      using s e S w1 f v by (auto simp: sweep_def io_bind_def time_sleep_def split: if_splits)
    then have "probed w' = probed w @ order w U" using p2 by simp
    moreover have "count_list (order w U) u = (if u \<in> U then 1 else 0)" for u
      using count_list_distinct [of "order w U" u] order_okD [OF ok finU] by simp
    ultimately show ?thesis by blast
  qed
  show "(faults w = [] \<longrightarrow> fst (enumerate_urls w) = Inr U)
         \<and> (\<forall>S. fst (enumerate_urls w) = Inr S \<longrightarrow> S = U)
         \<and> (\<forall>w'. sweep cfg True w = (Inr (), w') \<longrightarrow>
               (\<exists>us. probed w' = probed w @ us
                     \<and> (\<forall>u. count_list us u = (if u \<in> U then 1 else 0))))"
    using 1 2 3 by blast
qed

lemma scenario_union:
  "(\<Union>s \<in> members scenario_db ''stations''. members scenario_db (urls_key s))
     = {''https://example.com'', ''https://nonexistent.invalid''}"
  by (auto simp: scenario_db_def members_def urls_key_def)

text \<open>
  The scenario of the specification: two stations share \<^verbatim>\<open>https://example.com\<close>; the
  working set has two URLs and the sweep makes two probes.
\<close>

theorem sweep_working_set_witness:
  "fst (enumerate_urls (world_of scenario_db [] scenario_net))
     = Inr {''https://example.com'', ''https://nonexistent.invalid''}
   \<and> probed (snd (sweep default_config True (world_of scenario_db [] scenario_net)))
       = [''https://example.com'', ''https://nonexistent.invalid'']
   \<and> count_list [''https://example.com'', ''https://nonexistent.invalid'']
         ''https://example.com'' = 1"
proof -
  let ?w = "world_of scenario_db [] scenario_net"
  let ?U = "\<Union>s \<in> members (db ?w) ''stations''. members (db ?w) (urls_key s)"
  have f: "faults ?w = []" and wf: "wf_db (db ?w)" and ok: "order_ok ?w"
    by (simp_all add: wf_db_scenario order_ok_world_of)
  have U: "?U = {''https://example.com'', ''https://nonexistent.invalid''}"
    using scenario_union by simp
  obtain w' where s: "sweep default_config True ?w = (Inr (), w')"
    and p: "probed w' = [''https://example.com'', ''https://nonexistent.invalid'']"
    using scenario_sweep by simp
  have 1: "fst (enumerate_urls ?w) = Inr ?U"
    using sweep_working_set [of ?w default_config] f wf ok by blast
  obtain us where us: "probed w' = probed ?w @ us"
    "\<forall>u. count_list us u = (if u \<in> ?U then 1 else 0)"
    using sweep_working_set [of ?w default_config] wf ok s by blast
  have "us = [''https://example.com'', ''https://nonexistent.invalid'']"
    using us(1) p by simp
  then have 2: "count_list [''https://example.com'', ''https://nonexistent.invalid'']
         ''https://example.com'' = (if ''https://example.com'' \<in> ?U then 1 else 0)"
    using us(2) by blast
  show ?thesis using 1 2 s p unfolding U by simp
qed

end
